theory Spec2Isabelle
  imports Main
begin

section \<open>The iterator singleton of \<^verbatim>\<open>src/lib/iterator.js\<close>\<close>

text \<open>
  The module keeps one object \<^verbatim>\<open>internals\<close> with the fields \<^verbatim>\<open>items\<close>, \<^verbatim>\<open>fn\<close>,
  \<^verbatim>\<open>done\<close> and \<^verbatim>\<open>isAborted\<close>, and exports one function \<^verbatim>\<open>iterate(items, fn, done)\<close>.
  Every call of the user's \<^verbatim>\<open>fn\<close> receives a fresh closure \<^verbatim>\<open>next\<close> carrying a second
  closure \<^verbatim>\<open>next.abort\<close>. The model below passes the state explicitly, keeps the minted
  closures in a store (a closure is named by its position there), records every call the
  module makes into user code, and returns how control left the module.
\<close>

subsection \<open>Values\<close>

text \<open>
  JavaScript values, as far as the module looks at them: it tests \<^verbatim>\<open>Array.isArray\<close> and
  \<^verbatim>\<open>typeof v\<close> against \<^verbatim>\<open>'undefined'\<close> and \<^verbatim>\<open>'function'\<close>. A user function is named by a
  number. Numbers are kept as integers (the module never computes with them). An array is
  its list of elements: the module reaches the array only through \<^verbatim>\<open>internals.items\<close>, so
  the array lives in that field of the state.
\<close>

datatype jsval =
  Undefined | Null | Bool bool | Num int | Str string | Arr "jsval list" | Fun nat

text \<open>What \<^verbatim>\<open>internals.done\<close> can hold once validated: the private \<^verbatim>\<open>noop\<close> or a user function.\<close>

datatype callback = Noop | UserFn nat

text \<open>
  \<^verbatim>\<open>TypeError\<close> is the JavaScript exception (thrown by the validators, by a property
  access on \<^verbatim>\<open>null\<close> and by a call of \<^verbatim>\<open>null\<close>). \<^verbatim>\<open>NoSuchHandle\<close> is not a JavaScript
  condition: it is the model's answer when asked to call a closure that was never minted.
\<close>

datatype error = TypeError | NoSuchHandle

text \<open>
  The two closures minted by \<^verbatim>\<open>internals.step(i)\<close>: \<^verbatim>\<open>next\<close> captures the parameter \<^verbatim>\<open>i\<close> of
  \<^verbatim>\<open>step\<close>, which it post-increments (field \<open>cur\<close>); \<^verbatim>\<open>next.abort\<close> captures the parameter
  \<^verbatim>\<open>i\<close> of \<^verbatim>\<open>internals.abort(i)\<close>, a copy that nothing changes (field \<open>abort_i\<close>).
\<close>

record closure =
  cur :: nat
  abort_i :: nat

text \<open>
  A call into user code: \<^verbatim>\<open>fn(i, items[i], next)\<close> with the function, the index, the value
  and the closure passed, or \<^verbatim>\<open>done(items)\<close> with the callback and the array contents at
  the time of the call (\<open>None\<close> for \<^verbatim>\<open>null\<close>).
\<close>

datatype event =
  StepCall nat nat jsval nat
| DoneCall callback "jsval list option"

text \<open>
  How control leaves the module. Every call into user code is the last thing the module
  does on its path (a tail call), so an entry either returns without calling out, throws,
  or ends in one call into user code.
\<close>

datatype outcome = Returned | Threw error | Called event

record state =
  items :: "jsval list option"
  fn :: "nat option"
  done_cb :: "callback option"
  isAborted :: bool
  closures :: "closure list"
  calls :: "event list"

text \<open>The module as loaded: all references \<^verbatim>\<open>null\<close>, nothing minted, nothing called.\<close>

definition init :: state where
  "init = \<lparr>items = None, fn = None, done_cb = None, isAborted = False,
           closures = [], calls = []\<rparr>"

subsection \<open>Array access and parameters\<close>

text \<open>A parameter that the caller did not pass is \<^verbatim>\<open>undefined\<close>.\<close>

definition param :: "jsval list \<Rightarrow> nat \<Rightarrow> jsval" where
  "param args k = (if k < length args then args ! k else Undefined)"

text \<open>\<^verbatim>\<open>xs[i]\<close>: reading past the end gives \<^verbatim>\<open>undefined\<close>.\<close>

definition js_index :: "jsval list \<Rightarrow> nat \<Rightarrow> jsval" where
  "js_index xs i = (if i < length xs then xs ! i else Undefined)"

text \<open>
  \<^verbatim>\<open>xs[i] = v\<close>: writing at or past the end extends the array; the positions skipped are
  holes, which read as \<^verbatim>\<open>undefined\<close> and are modelled by it.
\<close>

definition js_store :: "jsval list \<Rightarrow> nat \<Rightarrow> jsval \<Rightarrow> jsval list" where
  "js_store xs i v =
     (if i < length xs then xs[i := v]
      else xs @ replicate (i - length xs) Undefined @ [v])"

subsection \<open>The private functions of \<^verbatim>\<open>internals\<close>\<close>

text \<open>\<^verbatim>\<open>updateVal(i, newVal)\<close>; the assignment throws when \<^verbatim>\<open>internals.items\<close> is \<^verbatim>\<open>null\<close>.\<close>

definition updateVal :: "nat \<Rightarrow> jsval \<Rightarrow> state \<Rightarrow> outcome \<times> state" where
  "updateVal i newVal s =
     (if newVal \<noteq> Undefined then
        (case items s of
           None \<Rightarrow> (Threw TypeError, s)
         | Some xs \<Rightarrow> (Returned, s\<lparr>items := Some (js_store xs i newVal)\<rparr>))
      else (Returned, s))"

text \<open>\<^verbatim>\<open>finish()\<close>: \<^verbatim>\<open>internals.done(internals.items)\<close>; calling \<^verbatim>\<open>null\<close> throws.\<close>

definition finish :: "state \<Rightarrow> outcome \<times> state" where
  "finish s =
     (case done_cb s of
        None \<Rightarrow> (Threw TypeError, s)
      | Some d \<Rightarrow>
          (Called (DoneCall d (items s)),
           s\<lparr>calls := calls s @ [DoneCall d (items s)]\<rparr>))"

text \<open>
  \<^verbatim>\<open>step(i)\<close> mints \<^verbatim>\<open>next\<close> together with \<^verbatim>\<open>next.abort = internals.abort(i)\<close> and returns
  \<^verbatim>\<open>next\<close>: here, the position of the new closure in the store.
\<close>

definition step :: "nat \<Rightarrow> state \<Rightarrow> nat \<times> state" where
  "step i s =
     (length (closures s),
      s\<lparr>closures := closures s @ [\<lparr>cur = i, abort_i = i\<rparr>]\<rparr>)"

text \<open>
  \<^verbatim>\<open>internals.iterate(i)\<close>: \<^verbatim>\<open>internals.fn(i, internals.items[i], internals.step(i))\<close>. The
  arguments are evaluated left to right before the call: reading \<^verbatim>\<open>items[i]\<close> throws on
  \<^verbatim>\<open>null\<close> before anything is minted, and calling a \<^verbatim>\<open>null\<close> \<^verbatim>\<open>fn\<close> throws after the closure
  has been minted.
\<close>

definition internals_iterate :: "nat \<Rightarrow> state \<Rightarrow> outcome \<times> state" where
  "internals_iterate i s =
     (case items s of
        None \<Rightarrow> (Threw TypeError, s)
      | Some xs \<Rightarrow>
          (let (h, s') = step i s in
           case fn s' of
             None \<Rightarrow> (Threw TypeError, s')
           | Some f \<Rightarrow>
               (Called (StepCall f i (js_index xs i) h),
                s'\<lparr>calls := calls s' @ [StepCall f i (js_index xs i) h]\<rparr>)))"

text \<open>
  A call \<^verbatim>\<open>next(newVal)\<close> of the closure at position \<open>h\<close>. The argument \<^verbatim>\<open>i++\<close> increments
  the captured variable before \<^verbatim>\<open>updateVal\<close> runs; \<^verbatim>\<open>internals.items.length\<close> throws on
  \<^verbatim>\<open>null\<close>.
\<close>

definition next_call :: "nat \<Rightarrow> jsval list \<Rightarrow> state \<Rightarrow> outcome \<times> state" where
  "next_call h args s =
     (if \<not> isAborted s then
        (if h < length (closures s) then
           (let i = cur (closures s ! h);
                s1 = s\<lparr>closures := (closures s)[h := (closures s ! h)\<lparr>cur := Suc i\<rparr>]\<rparr>
            in case updateVal i (param args 0) s1 of
                 (Threw e, s2) \<Rightarrow> (Threw e, s2)
               | (_, s2) \<Rightarrow>
                   (case items s2 of
                      None \<Rightarrow> (Threw TypeError, s2)
                    | Some xs \<Rightarrow>
                        if Suc i < length xs then internals_iterate (Suc i) s2
                        else finish s2))
         else (Threw NoSuchHandle, s))
      else (Returned, s))"

text \<open>A call \<^verbatim>\<open>next.abort(newVal)\<close> of the abort closure minted with \<^verbatim>\<open>next\<close> number \<open>h\<close>.\<close>

definition abort_call :: "nat \<Rightarrow> jsval list \<Rightarrow> state \<Rightarrow> outcome \<times> state" where
  "abort_call h args s =
     (if h < length (closures s) then
        (let s1 = s\<lparr>isAborted := True\<rparr>
         in case updateVal (abort_i (closures s ! h)) (param args 0) s1 of
              (Threw e, s2) \<Rightarrow> (Threw e, s2)
            | (_, s2) \<Rightarrow> finish s2)
      else (Threw NoSuchHandle, s))"

definition reset :: "state \<Rightarrow> state" where
  "reset s = s\<lparr>items := None, fn := None, done_cb := None, isAborted := False\<rparr>"

definition validateItemsParam :: "jsval \<Rightarrow> error + jsval list" where
  "validateItemsParam v = (case v of Arr xs \<Rightarrow> Inr xs | _ \<Rightarrow> Inl TypeError)"

definition validateFnParam :: "jsval \<Rightarrow> error + nat" where
  "validateFnParam v = (case v of Fun f \<Rightarrow> Inr f | _ \<Rightarrow> Inl TypeError)"

definition validateDoneParam :: "jsval \<Rightarrow> error + callback" where
  "validateDoneParam v =
     (if v \<noteq> Undefined then
        (case v of Fun d \<Rightarrow> Inr (UserFn d) | _ \<Rightarrow> Inl TypeError)
      else Inr Noop)"

subsection \<open>The public function\<close>

text \<open>
  \<^verbatim>\<open>iterate(items, fn, done)\<close>: \<^verbatim>\<open>reset()\<close> first, then each field is assigned as soon as its
  parameter has been validated, then the walk starts when the array is not empty.
\<close>

definition iterate :: "jsval list \<Rightarrow> state \<Rightarrow> outcome \<times> state" where
  "iterate args s =
     (let s0 = reset s in
      case validateItemsParam (param args 0) of
        Inl e \<Rightarrow> (Threw e, s0)
      | Inr xs \<Rightarrow>
          (let s1 = s0\<lparr>items := Some xs\<rparr> in
           case validateFnParam (param args 1) of
             Inl e \<Rightarrow> (Threw e, s1)
           | Inr f \<Rightarrow>
               (let s2 = s1\<lparr>fn := Some f\<rparr> in
                case validateDoneParam (param args 2) of
                  Inl e \<Rightarrow> (Threw e, s2)
                | Inr d \<Rightarrow>
                    (let s3 = s2\<lparr>done_cb := Some d\<rparr> in
                     if length xs \<noteq> 0 then internals_iterate 0 s3
                     else (Returned, s3)))))"

subsection \<open>User code\<close>

text \<open>
  A call of one of the closures by user code, and a sequence of such calls made one after
  the other (an exception thrown by one of them reaches the user code that made the call;
  the state stays as the call left it).
\<close>

datatype hcall = Next nat "jsval list" | Abort nat "jsval list"

fun exec :: "hcall \<Rightarrow> state \<Rightarrow> outcome \<times> state" where
  "exec (Next h args) s = next_call h args s"
| "exec (Abort h args) s = abort_call h args s"

fun run_handle_calls :: "hcall list \<Rightarrow> state \<Rightarrow> state" where
  "run_handle_calls [] s = s"
| "run_handle_calls (c # cs) s = run_handle_calls cs (snd (exec c s))"


text \<open>
  A user \<^verbatim>\<open>fn\<close> that, when called with \<^verbatim>\<open>(i, v, next)\<close>, synchronously does one thing with
  its closure: calls \<^verbatim>\<open>next\<close> with some arguments, calls \<^verbatim>\<open>next.abort\<close> with some
  arguments, or returns without calling either.
\<close>

datatype action = Advance "jsval list" | AbortWith "jsval list" | Retain

text \<open>
  Running such a \<^verbatim>\<open>fn\<close>: whenever the module ends in a call of \<^verbatim>\<open>fn\<close>, the function's
  action is carried out on the closure it was given. The first argument bounds the number
  of calls of \<^verbatim>\<open>fn\<close> that are answered.
\<close>

fun drive :: "nat \<Rightarrow> (nat \<Rightarrow> jsval \<Rightarrow> action) \<Rightarrow> outcome \<times> state \<Rightarrow> outcome \<times> state" where
  "drive 0 sf r = r"
| "drive (Suc n) sf (out, s) =
     (case out of
        Called (StepCall f i v h) \<Rightarrow>
          (case sf i v of
             Advance args \<Rightarrow> drive n sf (next_call h args s)
           | AbortWith args \<Rightarrow> drive n sf (abort_call h args s)
           | Retain \<Rightarrow> (out, s))
      | _ \<Rightarrow> (out, s))"

subsection \<open>Auxiliary notions for the statements\<close>

text \<open>The array after \<^verbatim>\<open>updateVal(i, v)\<close>: untouched when \<open>v\<close> is \<^verbatim>\<open>undefined\<close>.\<close>

definition updated :: "jsval list \<Rightarrow> nat \<Rightarrow> jsval \<Rightarrow> jsval list" where
  "updated xs i v = (if v \<noteq> Undefined then js_store xs i v else xs)"

text \<open>
  The array after \<open>k\<close> successive steps, starting at index \<open>i\<close>, each of which passes
  the arguments \<open>r j v\<close> to its \<^verbatim>\<open>next\<close>.
\<close>

fun advance_all :: "(nat \<Rightarrow> jsval \<Rightarrow> jsval list) \<Rightarrow> nat \<Rightarrow> nat \<Rightarrow> jsval list \<Rightarrow> jsval list" where
  "advance_all r i 0 xs = xs"
| "advance_all r i (Suc k) xs =
     advance_all r (Suc i) k (updated xs i (param (r i (js_index xs i)) 0))"

text \<open>
  The walk waits at index \<open>i\<close>: \<^verbatim>\<open>fn\<close> has just been called with the closure \<open>h\<close>, the
  newest one, and neither of its closures has been called yet.
\<close>

definition pending :: "state \<Rightarrow> nat \<Rightarrow> callback \<Rightarrow> jsval list \<Rightarrow> nat \<Rightarrow> nat \<Rightarrow> bool" where
  "pending s f d xs i h \<longleftrightarrow>
     items s = Some xs \<and> fn s = Some f \<and> done_cb s = Some d \<and> \<not> isAborted s \<and>
     Suc h = length (closures s) \<and> cur (closures s ! h) = i \<and>
     abort_i (closures s ! h) = i \<and> i < length xs"

text \<open>The calls of \<^verbatim>\<open>done\<close> among the calls into user code.\<close>

fun is_done_call :: "event \<Rightarrow> bool" where
  "is_done_call (DoneCall d xs) = True"
| "is_done_call (StepCall f i v h) = False"

text \<open>
  A run lasts from the call of \<^verbatim>\<open>iterate\<close> until \<^verbatim>\<open>done\<close> is called. With \<open>k\<close> the number of
  calls into user code recorded before that call of \<^verbatim>\<open>iterate\<close>, the run is still going on
  in a state when no call of \<^verbatim>\<open>done\<close> has been recorded since.
\<close>

definition run_active :: "nat \<Rightarrow> state \<Rightarrow> bool" where
  "run_active k s \<longleftrightarrow> \<not> list_ex is_done_call (drop k (calls s))"


subsection \<open>Example runs\<close>



text \<open>A run over \<^verbatim>\<open>[1]\<close>, and the same run after its \<^verbatim>\<open>next(7)\<close> has finished it.\<close>

definition one_item_run :: state where
  "one_item_run = snd (iterate [Arr [Num 1], Fun 0, Fun 1] init)"

definition finished_run :: state where
  "finished_run = snd (next_call 0 [Num 7] one_item_run)"

text \<open>A run over \<^verbatim>\<open>[1, 2, 3]\<close>, waiting at index 0 with closure 0.\<close>

definition three_item_run :: state where
  "three_item_run = snd (iterate [Arr [Num 1, Num 2, Num 3], Fun 0, Fun 1] init)"

text \<open>The arguments that \<^verbatim>\<open>(i, v, next) => next(v * 2)\<close> passes to \<^verbatim>\<open>next\<close>, for a number \<open>v\<close>.\<close>

definition doubling :: "nat \<Rightarrow> jsval \<Rightarrow> jsval list" where
  "doubling i v = (case v of Num n \<Rightarrow> [Num (n * 2)] | _ \<Rightarrow> [])"

section \<open>Properties\<close>

subsection \<open>Arrays, parameters and the example runs\<close>

lemma updateVal_Undefined: "updateVal i Undefined s = (Returned, s)"
  by (simp add: updateVal_def)

lemma length_updated: "i < length xs \<Longrightarrow> length (updated xs i v) = length xs"
  by (simp add: updated_def js_store_def)

lemma nth_updated_other: "i < length xs \<Longrightarrow> j \<noteq> i \<Longrightarrow> updated xs i v ! j = xs ! j"
  by (simp add: updated_def js_store_def)

lemma nth_updated_same:
  "i < length xs \<Longrightarrow> updated xs i v ! i = (if v \<noteq> Undefined then v else xs ! i)"
  by (simp add: updated_def js_store_def)

lemma updateVal_Some:
  "items s = Some xs \<Longrightarrow> updateVal i v s = (Returned, s\<lparr>items := Some (updated xs i v)\<rparr>)"
  by (auto simp: updateVal_def updated_def)

lemma advance_all_eq:
  "i + k \<le> length xs \<Longrightarrow>
   advance_all r i k xs =
     map (\<lambda>j. if i \<le> j \<and> j < i + k \<and> param (r j (xs ! j)) 0 \<noteq> Undefined
              then param (r j (xs ! j)) 0 else xs ! j) [0..<length xs]"
proof (induction k arbitrary: i xs)
  case 0
  show ?case by (rule nth_equalityI) auto
next
  case (Suc k)
  let ?v = "param (r i (js_index xs i)) 0"
  let ?ys = "updated xs i ?v"
  from Suc.prems have i: "i < length xs" by simp
  have len: "length ?ys = length xs" using i by (rule length_updated)
  have "advance_all r i (Suc k) xs = advance_all r (Suc i) k ?ys" by simp
  also have "\<dots> = map (\<lambda>j. if Suc i \<le> j \<and> j < Suc i + k \<and> param (r j (?ys ! j)) 0 \<noteq> Undefined
              then param (r j (?ys ! j)) 0 else ?ys ! j) [0..<length ?ys]"
    using Suc.prems len by (intro Suc.IH) simp
  also have "\<dots> = map (\<lambda>j. if i \<le> j \<and> j < i + Suc k \<and> param (r j (xs ! j)) 0 \<noteq> Undefined
              then param (r j (xs ! j)) 0 else xs ! j) [0..<length xs]"
    unfolding len
  proof (rule map_cong[OF refl])
    fix j assume "j \<in> set [0..<length xs]"
    show "(if Suc i \<le> j \<and> j < Suc i + k \<and> param (r j (?ys ! j)) 0 \<noteq> Undefined
              then param (r j (?ys ! j)) 0 else ?ys ! j) =
          (if i \<le> j \<and> j < i + Suc k \<and> param (r j (xs ! j)) 0 \<noteq> Undefined
              then param (r j (xs ! j)) 0 else xs ! j)"
    proof (cases "j = i")
      case True
      then show ?thesis using i by (simp add: nth_updated_same js_index_def)
    next
      case False
      then have "?ys ! j = xs ! j" using i by (simp add: nth_updated_other)
      moreover have "(Suc i \<le> j) = (i \<le> j)" using False by arith
      ultimately show ?thesis by simp
    qed
  qed
  finally show ?case .
qed


lemma finished_run_eq:
  "finished_run = \<lparr>items = Some [Num 7], fn = Some 0, done_cb = Some (UserFn 1),
      isAborted = False, closures = [\<lparr>cur = 1, abort_i = 0\<rparr>],
      calls = [StepCall 0 0 (Num 1) 0, DoneCall (UserFn 1) (Some [Num 7])]\<rparr>"
  by code_simp

subsection \<open>One step of a waiting walk\<close>

lemma next_pending_step:
  assumes "pending s f d xs i h" and "Suc i < length xs"
  shows "\<exists>s'. next_call h a s = (Called (StepCall f (Suc i) (xs ! Suc i) (Suc h)), s') \<and>
              pending s' f d (updated xs i (param a 0)) (Suc i) (Suc h) \<and>
              calls s' = calls s @ [StepCall f (Suc i) (xs ! Suc i) (Suc h)]"
  using assms
  by (auto simp: pending_def next_call_def Let_def updateVal_Some internals_iterate_def step_def
      js_index_def length_updated nth_updated_other nth_append)

lemma next_pending_finish:
  assumes "pending s f d xs i h" and "Suc i = length xs"
  shows "\<exists>s'. next_call h a s = (Called (DoneCall d (Some (updated xs i (param a 0)))), s') \<and>
              items s' = Some (updated xs i (param a 0)) \<and> \<not> isAborted s' \<and>
              calls s' = calls s @ [DoneCall d (Some (updated xs i (param a 0)))]"
  using assms
  by (auto simp: pending_def next_call_def Let_def updateVal_Some finish_def length_updated)

lemma abort_pending:
  assumes "pending s f d xs i h"
  shows "\<exists>s'. abort_call h a s = (Called (DoneCall d (Some (updated xs i (param a 0)))), s') \<and>
              items s' = Some (updated xs i (param a 0)) \<and> isAborted s' \<and>
              calls s' = calls s @ [DoneCall d (Some (updated xs i (param a 0)))]"
  using assms
  by (auto simp: pending_def abort_call_def Let_def updateVal_Some finish_def)

lemma iterate_pending:
  assumes "xs \<noteq> []"
  shows "\<exists>s'. iterate [Arr xs, Fun f, Fun d] s =
                 (Called (StepCall f 0 (xs ! 0) (length (closures s))), s') \<and>
              pending s' f (UserFn d) xs 0 (length (closures s)) \<and>
              calls s' = calls s @ [StepCall f 0 (xs ! 0) (length (closures s))]"
  using assms
  by (auto simp: iterate_def reset_def param_def validateItemsParam_def validateFnParam_def
      validateDoneParam_def Let_def internals_iterate_def step_def js_index_def pending_def)

lemma drive_done: "drive n sf (Called (DoneCall d x), s) = (Called (DoneCall d x), s)"
  by (cases n) simp_all

lemma drive_advance:
  assumes "pending s f d xs i h" and "i + k < length xs"
    and "\<And>j v. j < i + k \<Longrightarrow> sf j v = Advance (r j v)"
  shows "\<exists>s'. drive (k + n) sf (Called (StepCall f i (xs ! i) h), s) =
                 drive n sf (Called (StepCall f (i + k) (xs ! (i + k)) (h + k)), s') \<and>
              pending s' f d (advance_all r i k xs) (i + k) (h + k) \<and>
              calls s' = calls s @
                map (\<lambda>j. StepCall f j (xs ! j) (h + (j - i))) [Suc i..<Suc (i + k)]"
  using assms
proof (induction k arbitrary: s xs i h)
  case 0
  then show ?case by (intro exI[of _ s]) simp
next
  case (Suc k)
  let ?a = "r i (xs ! i)"
  let ?ys = "updated xs i (param ?a 0)"
  from Suc.prems(2) have i: "i < length xs" and si: "Suc i < length xs" by simp_all
  from next_pending_step[OF Suc.prems(1) si, of ?a] obtain s1 where
    s1: "next_call h ?a s = (Called (StepCall f (Suc i) (xs ! Suc i) (Suc h)), s1)"
    and p1: "pending s1 f d ?ys (Suc i) (Suc h)"
    and c1: "calls s1 = calls s @ [StepCall f (Suc i) (xs ! Suc i) (Suc h)]"
    by blast
  have len: "length ?ys = length xs" using i by (rule length_updated)
  have nth: "\<And>j. Suc i \<le> j \<Longrightarrow> ?ys ! j = xs ! j"
    using i by (simp add: nth_updated_other)
  have sfi: "sf i (xs ! i) = Advance ?a" using Suc.prems(3)[of i "xs ! i"] by simp
  have "Suc i + k < length ?ys" using Suc.prems(2) len by simp
  moreover have "\<And>j v. j < Suc i + k \<Longrightarrow> sf j v = Advance (r j v)"
    using Suc.prems(3) by simp
  ultimately obtain s' where
    d: "drive (k + n) sf (Called (StepCall f (Suc i) (?ys ! Suc i) (Suc h)), s1) =
          drive n sf (Called (StepCall f (Suc i + k) (?ys ! (Suc i + k)) (Suc h + k)), s')"
    and p: "pending s' f d (advance_all r (Suc i) k ?ys) (Suc i + k) (Suc h + k)"
    and c: "calls s' = calls s1 @
              map (\<lambda>j. StepCall f j (?ys ! j) (Suc h + (j - Suc i))) [Suc (Suc i)..<Suc (Suc i + k)]"
    using Suc.IH[OF p1] by blast
  have m: "map (\<lambda>j. StepCall f j (?ys ! j) (Suc h + (j - Suc i))) [Suc (Suc i)..<Suc (Suc i + k)] =
           map (\<lambda>j. StepCall f j (xs ! j) (h + (j - i))) [Suc (Suc i)..<Suc (Suc i + k)]"
    by (rule map_cong[OF refl]) (auto simp: nth Suc_diff_le)
  have "drive (Suc k + n) sf (Called (StepCall f i (xs ! i) h), s) =
        drive (k + n) sf (Called (StepCall f (Suc i) (?ys ! Suc i) (Suc h)), s1)"
    using sfi s1 by (simp add: nth)
  with d have "drive (Suc k + n) sf (Called (StepCall f i (xs ! i) h), s) =
        drive n sf (Called (StepCall f (i + Suc k) (xs ! (i + Suc k)) (h + Suc k)), s')"
    by (simp add: nth)
  moreover have "pending s' f d (advance_all r i (Suc k) xs) (i + Suc k) (h + Suc k)"
    using p i by (simp add: js_index_def)
  moreover have "calls s' = calls s @
        map (\<lambda>j. StepCall f j (xs ! j) (h + (j - i))) [Suc i..<Suc (i + Suc k)]"
  proof -
    have u: "[Suc i..<Suc (i + Suc k)] = Suc i # [Suc (Suc i)..<Suc (Suc i + k)]"
      by (subst upt_conv_Cons) simp_all
    show ?thesis unfolding c c1 m u by simp
  qed
  ultimately show ?case by blast
qed

lemma walk_to:
  assumes "m < length S" and "\<And>j v. j < m \<Longrightarrow> sf j v = Advance (r j v)"
  shows "\<exists>s1. drive (m + n) sf (iterate [Arr S, Fun f, Fun d] s) =
                 drive n sf (Called (StepCall f m (S ! m) (length (closures s) + m)), s1) \<and>
              pending s1 f (UserFn d) (advance_all r 0 m S) m (length (closures s) + m) \<and>
              calls s1 = calls s @
                map (\<lambda>j. StepCall f j (S ! j) (length (closures s) + j)) [0..<Suc m]"
proof -
  from assms(1) have ne: "S \<noteq> []" by auto
  from iterate_pending[OF ne, of f d s] obtain s0 where
    i0: "iterate [Arr S, Fun f, Fun d] s = (Called (StepCall f 0 (S ! 0) (length (closures s))), s0)"
    and p0: "pending s0 f (UserFn d) S 0 (length (closures s))"
    and c0: "calls s0 = calls s @ [StepCall f 0 (S ! 0) (length (closures s))]"
    by blast
  have "0 + m < length S" using assms(1) by simp
  moreover have "\<And>j v. j < 0 + m \<Longrightarrow> sf j v = Advance (r j v)" using assms(2) by simp
  ultimately obtain s1 where
    d: "drive (m + n) sf (Called (StepCall f 0 (S ! 0) (length (closures s))), s0) =
          drive n sf (Called (StepCall f (0 + m) (S ! (0 + m)) (length (closures s) + m)), s1)"
    and p: "pending s1 f (UserFn d) (advance_all r 0 m S) (0 + m) (length (closures s) + m)"
    and c: "calls s1 = calls s0 @
              map (\<lambda>j. StepCall f j (S ! j) (length (closures s) + (j - 0))) [Suc 0..<Suc (0 + m)]"
    using drive_advance[OF p0, of m sf r n] by blast
  have u: "[0..<Suc m] = 0 # [Suc 0..<Suc m]" by (subst upt_conv_Cons) simp_all
  have "calls s1 = calls s @
          map (\<lambda>j. StepCall f j (S ! j) (length (closures s) + j)) [0..<Suc m]"
    unfolding c c0 u by simp
  with d p i0 show ?thesis by (intro exI[of _ s1]) simp
qed

subsection \<open>A walk whose steps all advance\<close>

text \<open>
  Claim C3. Let \<open>S\<close> be a non-empty array and let \<^verbatim>\<open>fn\<close>, at every index \<open>i\<close> with value
  \<open>v\<close>, synchronously call \<^verbatim>\<open>next\<close> with the arguments \<open>r i v\<close> (none, or a replacement).
  Then the walk ends in a call of \<^verbatim>\<open>done\<close> with the array that holds, at every position,
  the replacement passed there or else the original value, in the original order; the
  calls made into user code are \<^verbatim>\<open>fn\<close> at the indices \<open>0, \<dots>, length S - 1\<close> in that order
  followed by that one call of \<^verbatim>\<open>done\<close>, so \<^verbatim>\<open>done\<close> is called exactly once. Answering
  \<open>length S\<close> calls of \<^verbatim>\<open>fn\<close> is enough for the walk to end.
\<close>

theorem synchronous_advance_walk:
  fixes r :: "nat \<Rightarrow> jsval \<Rightarrow> jsval list"
  defines "final S \<equiv> map (\<lambda>j. if param (r j (S ! j)) 0 \<noteq> Undefined
                                then param (r j (S ! j)) 0 else S ! j) [0..<length S]"
  assumes "S \<noteq> []" and "length S \<le> n"
  shows "fst (drive n (\<lambda>i v. Advance (r i v)) (iterate [Arr S, Fun f, Fun d] s)) =
           Called (DoneCall (UserFn d) (Some (final S))) \<and>
         items (snd (drive n (\<lambda>i v. Advance (r i v)) (iterate [Arr S, Fun f, Fun d] s))) =
           Some (final S) \<and>
         calls (snd (drive n (\<lambda>i v. Advance (r i v)) (iterate [Arr S, Fun f, Fun d] s))) =
           calls s @ map (\<lambda>j. StepCall f j (S ! j) (length (closures s) + j)) [0..<length S] @
             [DoneCall (UserFn d) (Some (final S))] \<and>
         length (filter is_done_call (drop (length (calls s))
           (calls (snd (drive n (\<lambda>i v. Advance (r i v)) (iterate [Arr S, Fun f, Fun d] s)))))) = 1"
proof -
  let ?sf = "\<lambda>i v. Advance (r i v)"
  let ?h = "length (closures s)"
  define m where "m = length S - 1"
  have ml: "m < length S" and sm: "Suc m = length S"
    using assms(2) by (simp_all add: m_def)
  define n' where "n' = n - Suc m"
  have n': "n = m + Suc n'" using assms(3) sm by (simp add: n'_def)
  let ?xs = "advance_all r 0 m S"
  have xs: "?xs = map (\<lambda>j. if 0 \<le> j \<and> j < 0 + m \<and> param (r j (S ! j)) 0 \<noteq> Undefined
                          then param (r j (S ! j)) 0 else S ! j) [0..<length S]"
    by (rule advance_all_eq) (use ml in simp)
  have lxs: "length ?xs = length S" unfolding xs by simp
  have xm: "?xs ! m = S ! m" unfolding xs using ml by simp
  have "\<exists>s1. drive (m + Suc n') ?sf (iterate [Arr S, Fun f, Fun d] s) =
                 drive (Suc n') ?sf (Called (StepCall f m (S ! m) (?h + m)), s1) \<and>
              pending s1 f (UserFn d) ?xs m (?h + m) \<and>
              calls s1 = calls s @ map (\<lambda>j. StepCall f j (S ! j) (?h + j)) [0..<Suc m]"
    using ml by (rule walk_to) simp
  then obtain s1 where
    d: "drive (m + Suc n') ?sf (iterate [Arr S, Fun f, Fun d] s) =
          drive (Suc n') ?sf (Called (StepCall f m (S ! m) (?h + m)), s1)"
    and p: "pending s1 f (UserFn d) ?xs m (?h + m)"
    and c: "calls s1 = calls s @ map (\<lambda>j. StepCall f j (S ! j) (?h + j)) [0..<Suc m]"
    by blast
  have last: "Suc m = length ?xs" using lxs sm by simp
  let ?v = "param (r m (S ! m)) 0"
  obtain s2 where
    e: "next_call (?h + m) (r m (S ! m)) s1 =
          (Called (DoneCall (UserFn d) (Some (updated ?xs m ?v))), s2)"
    and i2: "items s2 = Some (updated ?xs m ?v)"
    and c2: "calls s2 = calls s1 @ [DoneCall (UserFn d) (Some (updated ?xs m ?v))]"
    using next_pending_finish[OF p last, of "r m (S ! m)"] by blast
  have fin: "updated ?xs m ?v = final S"
  proof (rule nth_equalityI)
    show "length (updated ?xs m ?v) = length (final S)"
      using ml by (simp add: length_updated lxs final_def)
  next
    fix j assume "j < length (updated ?xs m ?v)"
    then have j: "j < length S" using ml by (simp add: length_updated lxs)
    show "updated ?xs m ?v ! j = final S ! j"
    proof (cases "j = m")
      case True
      then show ?thesis using ml
        by (simp add: nth_updated_same lxs xm) (simp add: final_def)
    next
      case False
      then have "j < m" using j sm by simp
      then show ?thesis using False ml j
        by (simp add: nth_updated_other lxs) (simp add: xs final_def)
    qed
  qed
  have res: "drive n ?sf (iterate [Arr S, Fun f, Fun d] s) =
          (Called (DoneCall (UserFn d) (Some (final S))), s2)"
    unfolding n' d using e by (simp add: drive_done fin)
  have cs: "calls s2 = calls s @ map (\<lambda>j. StepCall f j (S ! j) (?h + j)) [0..<length S] @
             [DoneCall (UserFn d) (Some (final S))]"
    unfolding c2 c fin sm by simp
  have "filter is_done_call (map (\<lambda>j. StepCall f j (S ! j) (?h + j)) [0..<length S]) = []"
    by (simp add: filter_empty_conv)
  then have "length (filter is_done_call (drop (length (calls s)) (calls s2))) = 1"
    unfolding cs by simp
  with res i2 cs fin show ?thesis by simp
qed

text \<open>
  The scenario \<^verbatim>\<open>items = [1, 2, 3]\<close>, \<^verbatim>\<open>fn = (i, v, next) => next(v * 2)\<close> ends in
  \<^verbatim>\<open>done([2, 4, 6])\<close>.
\<close>

theorem synchronous_advance_walk_witness:
  "[Num 1, Num 2, Num 3] \<noteq> [] \<and> length [Num 1, Num 2, Num 3] \<le> 3 \<and>
   fst (drive 3 (\<lambda>i v. Advance (doubling i v))
          (iterate [Arr [Num 1, Num 2, Num 3], Fun 0, Fun 1] init)) =
     Called (DoneCall (UserFn 1) (Some [Num 2, Num 4, Num 6])) \<and>
   calls (snd (drive 3 (\<lambda>i v. Advance (doubling i v))
          (iterate [Arr [Num 1, Num 2, Num 3], Fun 0, Fun 1] init))) =
     [StepCall 0 0 (Num 1) 0, StepCall 0 1 (Num 2) 1, StepCall 0 2 (Num 3) 2,
      DoneCall (UserFn 1) (Some [Num 2, Num 4, Num 6])]"
proof -
  have h1: "[Num 1, Num 2, Num 3] \<noteq> []" by simp
  have h2: "length [Num 1, Num 2, Num 3] \<le> 3" by simp
  show ?thesis
    using synchronous_advance_walk[OF h1 h2, where r = doubling and f = 0 and d = 1 and s = init]
    by (simp add: doubling_def param_def init_def upt_rec)
qed

subsection \<open>A walk that is aborted\<close>

text \<open>
  Claim C4. Let \<open>m\<close> be an index of the array \<open>S\<close>, and let \<^verbatim>\<open>fn\<close> call \<^verbatim>\<open>next\<close> (with the
  arguments \<open>r i v\<close>) at every index below \<open>m\<close> and \<^verbatim>\<open>next.abort\<close> with the arguments \<open>a\<close>
  at index \<open>m\<close>. Then the call of \<^verbatim>\<open>next.abort\<close> ends in the call of \<^verbatim>\<open>done\<close>, the run is
  marked aborted, and \<^verbatim>\<open>fn\<close> has been called for the indices \<open>0, \<dots>, m\<close> only, never for
  an index above \<open>m\<close>. The array delivered holds the value passed to \<^verbatim>\<open>next.abort\<close> at
  index \<open>m\<close> (the original value when none was passed), the original values above \<open>m\<close>,
  and below \<open>m\<close> the original values except where a step passed a replacement.
\<close>

theorem abort_ends_walk:
  fixes r :: "nat \<Rightarrow> jsval \<Rightarrow> jsval list"
  defines "sf m a \<equiv> (\<lambda>i v. if i = m then AbortWith a else Advance (r i v))"
  defines "final m a S \<equiv>
    map (\<lambda>j. if j < m \<and> param (r j (S ! j)) 0 \<noteq> Undefined then param (r j (S ! j)) 0
             else if j = m \<and> param a 0 \<noteq> Undefined then param a 0
             else S ! j) [0..<length S]"
  assumes "m < length S" and "m < n"
  shows "fst (drive n (sf m a) (iterate [Arr S, Fun f, Fun d] s)) =
           Called (DoneCall (UserFn d) (Some (final m a S))) \<and>
         isAborted (snd (drive n (sf m a) (iterate [Arr S, Fun f, Fun d] s))) \<and>
         items (snd (drive n (sf m a) (iterate [Arr S, Fun f, Fun d] s))) =
           Some (final m a S) \<and>
         calls (snd (drive n (sf m a) (iterate [Arr S, Fun f, Fun d] s))) =
           calls s @ map (\<lambda>j. StepCall f j (S ! j) (length (closures s) + j)) [0..<Suc m] @
             [DoneCall (UserFn d) (Some (final m a S))]"
proof -
  let ?h = "length (closures s)"
  define n' where "n' = n - Suc m"
  have n': "n = m + Suc n'" using assms(4) by (simp add: n'_def)
  let ?xs = "advance_all r 0 m S"
  have xs: "?xs = map (\<lambda>j. if 0 \<le> j \<and> j < 0 + m \<and> param (r j (S ! j)) 0 \<noteq> Undefined
                          then param (r j (S ! j)) 0 else S ! j) [0..<length S]"
    by (rule advance_all_eq) (use assms(3) in simp)
  have lxs: "length ?xs = length S" unfolding xs by simp
  have adv: "\<And>j v. j < m \<Longrightarrow> sf m a j v = Advance (r j v)" by (simp add: sf_def)
  have "\<exists>s1. drive (m + Suc n') (sf m a) (iterate [Arr S, Fun f, Fun d] s) =
                 drive (Suc n') (sf m a) (Called (StepCall f m (S ! m) (?h + m)), s1) \<and>
              pending s1 f (UserFn d) ?xs m (?h + m) \<and>
              calls s1 = calls s @ map (\<lambda>j. StepCall f j (S ! j) (?h + j)) [0..<Suc m]"
    using assms(3) adv by (rule walk_to)
  then obtain s1 where
    d: "drive (m + Suc n') (sf m a) (iterate [Arr S, Fun f, Fun d] s) =
          drive (Suc n') (sf m a) (Called (StepCall f m (S ! m) (?h + m)), s1)"
    and p: "pending s1 f (UserFn d) ?xs m (?h + m)"
    and c: "calls s1 = calls s @ map (\<lambda>j. StepCall f j (S ! j) (?h + j)) [0..<Suc m]"
    by blast
  let ?v = "param a 0"
  obtain s2 where
    e: "abort_call (?h + m) a s1 = (Called (DoneCall (UserFn d) (Some (updated ?xs m ?v))), s2)"
    and i2: "items s2 = Some (updated ?xs m ?v)"
    and a2: "isAborted s2"
    and c2: "calls s2 = calls s1 @ [DoneCall (UserFn d) (Some (updated ?xs m ?v))]"
    using abort_pending[OF p, of a] by blast
  have fin: "updated ?xs m ?v = final m a S"
  proof (rule nth_equalityI)
    show "length (updated ?xs m ?v) = length (final m a S)"
      using assms(3) by (simp add: length_updated lxs final_def)
  next
    fix j assume "j < length (updated ?xs m ?v)"
    then have j: "j < length S" using assms(3) by (simp add: length_updated lxs)
    show "updated ?xs m ?v ! j = final m a S ! j"
    proof (cases "j = m")
      case True
      then show ?thesis using assms(3)
        by (simp add: nth_updated_same lxs) (simp add: xs final_def)
    next
      case False
      then show ?thesis using assms(3) j
        by (simp add: nth_updated_other lxs) (simp add: xs final_def)
    qed
  qed
  have res: "drive n (sf m a) (iterate [Arr S, Fun f, Fun d] s) =
          (Called (DoneCall (UserFn d) (Some (final m a S))), s2)"
    unfolding n' d using e by (simp add: drive_done fin sf_def)
  have cs: "calls s2 = calls s @ map (\<lambda>j. StepCall f j (S ! j) (?h + j)) [0..<Suc m] @
             [DoneCall (UserFn d) (Some (final m a S))]"
    unfolding c2 c fin by simp
  from res i2 a2 cs fin show ?thesis by simp
qed

text \<open>
  The scenario \<^verbatim>\<open>items = ['a', 'b', 'c']\<close> with an abort at index 1 with \<^verbatim>\<open>'X'\<close> ends in
  \<^verbatim>\<open>done(['a', 'X', 'c'])\<close>, and index 2 is never visited.
\<close>

theorem abort_ends_walk_witness:
  "1 < length [Str ''a'', Str ''b'', Str ''c''] \<and> (1::nat) < 2 \<and>
   fst (drive 2 (\<lambda>i v. if i = 1 then AbortWith [Str ''X''] else Advance [])
          (iterate [Arr [Str ''a'', Str ''b'', Str ''c''], Fun 0, Fun 1] init)) =
     Called (DoneCall (UserFn 1) (Some [Str ''a'', Str ''X'', Str ''c''])) \<and>
   calls (snd (drive 2 (\<lambda>i v. if i = 1 then AbortWith [Str ''X''] else Advance [])
          (iterate [Arr [Str ''a'', Str ''b'', Str ''c''], Fun 0, Fun 1] init))) =
     [StepCall 0 0 (Str ''a'') 0, StepCall 0 1 (Str ''b'') 1,
      DoneCall (UserFn 1) (Some [Str ''a'', Str ''X'', Str ''c''])]"
proof -
  have h1: "1 < length [Str ''a'', Str ''b'', Str ''c'']" by simp
  have h2: "(1::nat) < 2" by simp
  show ?thesis
    using abort_ends_walk[OF h1 h2, where r = "\<lambda>i v. []" and a = "[Str ''X'']"
        and f = 0 and d = 1 and s = init]
    by (simp add: param_def init_def upt_rec)
qed

subsection \<open>The abort closure after the run has finished\<close>

text \<open>
  Claim C5. \<^verbatim>\<open>next.abort\<close> does not look at \<^verbatim>\<open>isAborted\<close>: whatever the flag is, and
  whether or not \<^verbatim>\<open>done\<close> has been called before, a call of \<^verbatim>\<open>next.abort\<close> in a state that
  holds an array and a \<^verbatim>\<open>done\<close> callback sets the flag, overwrites the array at the index
  the closure was minted with when a value is passed, and calls \<^verbatim>\<open>done\<close> (again).
\<close>

theorem abort_ignores_aborted_flag:
  assumes "h < length (closures s)" and "items s = Some xs" and "done_cb s = Some d"
  shows "abort_call h args s =
          (let xs' = (if param args 0 \<noteq> Undefined
                      then js_store xs (abort_i (closures s ! h)) (param args 0) else xs)
           in (Called (DoneCall d (Some xs')),
               s\<lparr>isAborted := True, items := Some xs',
                  calls := calls s @ [DoneCall d (Some xs')]\<rparr>))"
  using assms by (simp add: abort_call_def Let_def updateVal_def finish_def)

text \<open>
  After the run over \<^verbatim>\<open>[1]\<close> has finished with \<^verbatim>\<open>done([7])\<close>, \<^verbatim>\<open>next.abort(8)\<close> of the same
  closure overwrites index 0 and calls \<^verbatim>\<open>done\<close> a second time.
\<close>

theorem abort_ignores_aborted_flag_witness:
  "0 < length (closures finished_run) \<and> items finished_run = Some [Num 7] \<and>
   done_cb finished_run = Some (UserFn 1) \<and>
   calls finished_run = [StepCall 0 0 (Num 1) 0, DoneCall (UserFn 1) (Some [Num 7])] \<and>
   fst (abort_call 0 [Num 8] finished_run) = Called (DoneCall (UserFn 1) (Some [Num 8])) \<and>
   calls (snd (abort_call 0 [Num 8] finished_run)) =
     [StepCall 0 0 (Num 1) 0, DoneCall (UserFn 1) (Some [Num 7]),
      DoneCall (UserFn 1) (Some [Num 8])]"
proof -
  have h1: "0 < length (closures finished_run)" by (simp add: finished_run_eq)
  have h2: "items finished_run = Some [Num 7]" by (simp add: finished_run_eq)
  have h3: "done_cb finished_run = Some (UserFn 1)" by (simp add: finished_run_eq)
  show ?thesis
    using abort_ignores_aborted_flag[OF h1 h2 h3, of "[Num 8]"]
    by (simp add: finished_run_eq param_def js_store_def Let_def)
qed

subsection \<open>The advance closure after an abort, and after the natural end\<close>

lemma exec_keeps_aborted: "isAborted s \<Longrightarrow> isAborted (snd (exec c s))"
  by (cases c) (auto simp: next_call_def abort_call_def Let_def updateVal_def finish_def split: option.splits prod.splits outcome.splits)

lemma run_keeps_aborted: "isAborted s \<Longrightarrow> isAborted (run_handle_calls cs s)"
  by (induction cs arbitrary: s) (simp_all add: exec_keeps_aborted)

lemma abort_call_sets_aborted: "h < length (closures s) \<Longrightarrow> isAborted (snd (abort_call h a s))"
  by (auto simp: abort_call_def Let_def updateVal_def finish_def split: option.splits prod.splits outcome.splits)

text \<open>
  Claim C2, as the code has it. Once \<^verbatim>\<open>next.abort\<close> of a minted closure has been called,
  and whatever calls of \<^verbatim>\<open>next\<close> and \<^verbatim>\<open>next.abort\<close> follow (no new call of the public
  \<^verbatim>\<open>iterate\<close>), a call of \<^verbatim>\<open>next\<close> returns without changing anything: no element is
  written, no captured index moves, and neither \<^verbatim>\<open>fn\<close> nor \<^verbatim>\<open>done\<close> is called. Nothing
  is claimed for a run that has ended naturally.
\<close>

theorem advance_after_abort_is_noop:
  assumes "ha < length (closures s)"
  shows "next_call h b (run_handle_calls cs (snd (abort_call ha a s))) =
           (Returned, run_handle_calls cs (snd (abort_call ha a s)))"
  using assms by (simp add: next_call_def run_keeps_aborted abort_call_sets_aborted)

theorem advance_after_abort_is_noop_witness:
  "0 < length (closures one_item_run) \<and>
   next_call 0 [Num 5]
     (run_handle_calls [Abort 0 [], Next 0 []] (snd (abort_call 0 [] one_item_run))) =
     (Returned, run_handle_calls [Abort 0 [], Next 0 []] (snd (abort_call 0 [] one_item_run)))"
proof -
  have h1: "0 < length (closures one_item_run)" by code_simp
  show ?thesis
    using advance_after_abort_is_noop[OF h1, where h = 0 and b = "[Num 5]"
        and cs = "[Abort 0 [], Next 0 []]" and a = "[]"] h1
    by blast
qed

text \<open>
  Claim C2 as stated fails after a natural end: the run over \<^verbatim>\<open>[1]\<close> has finished with
  \<^verbatim>\<open>done([7])\<close> and was never aborted; calling the retained \<^verbatim>\<open>next\<close> again with 9 writes
  index 1, moves the captured index to 2 and calls \<^verbatim>\<open>done\<close> a second time.
\<close>

theorem advance_after_natural_finish_counterexample:
  "calls finished_run = [StepCall 0 0 (Num 1) 0, DoneCall (UserFn 1) (Some [Num 7])] \<and>
   isAborted finished_run = False \<and>
   next_call 0 [Num 9] finished_run =
     (Called (DoneCall (UserFn 1) (Some [Num 7, Num 9])),
      \<lparr>items = Some [Num 7, Num 9], fn = Some 0, done_cb = Some (UserFn 1),
       isAborted = False, closures = [\<lparr>cur = 2, abort_i = 0\<rparr>],
       calls = [StepCall 0 0 (Num 1) 0, DoneCall (UserFn 1) (Some [Num 7]),
                DoneCall (UserFn 1) (Some [Num 7, Num 9])]\<rparr>)"
  by code_simp

subsection \<open>Invalid calls of the public function\<close>




subsection \<open>Closures of an earlier run\<close>









subsection \<open>The length of the array\<close>

lemma run_active_snoc_done:
  "k \<le> length (calls s) \<Longrightarrow> \<not> run_active k (s\<lparr>calls := calls s @ [DoneCall d x]\<rparr>)"
  by (simp add: run_active_def)






subsection \<open>The empty array\<close>

text \<open>
  Claim C8. For the empty array, \<^verbatim>\<open>iterate\<close> stores its parameters and returns: it calls
  neither \<^verbatim>\<open>fn\<close> nor \<^verbatim>\<open>done\<close>, with a \<^verbatim>\<open>done\<close> parameter or without one.
\<close>

theorem empty_sequence_is_inert:
  "iterate [Arr [], Fun f, Fun d] s =
     (Returned, s\<lparr>items := Some [], fn := Some f, done_cb := Some (UserFn d), isAborted := False\<rparr>) \<and>
   iterate [Arr [], Fun f] s =
     (Returned, s\<lparr>items := Some [], fn := Some f, done_cb := Some Noop, isAborted := False\<rparr>) \<and>
   calls (snd (iterate [Arr [], Fun f, Fun d] s)) = calls s \<and>
   calls (snd (iterate [Arr [], Fun f] s)) = calls s"
  by (simp add: iterate_def reset_def param_def validateItemsParam_def validateFnParam_def validateDoneParam_def)

subsection \<open>Calling one advance closure twice\<close>

text \<open>
  Claim C9. In a run that is not aborted, let \<^verbatim>\<open>next\<close> of a closure whose captured index is
  \<open>i\<close> be called while \<open>i + 1\<close> is within the array. The call leaves the captured index at
  \<open>i + 1\<close> and calls \<^verbatim>\<open>fn\<close> for index \<open>i + 1\<close> with a new closure. A second call of the
  same \<^verbatim>\<open>next\<close> then writes (when given a value) at index \<open>i + 1\<close>, not at \<open>i\<close>, and has the
  same outcome, the same array and the same calls into user code as a call of the new
  closure's \<^verbatim>\<open>next\<close> with the same arguments.
\<close>

theorem second_advance_targets_next_index:
  assumes "\<not> isAborted s" and "h < length (closures s)" and "items s = Some xs"
    and "fn s = Some f" and "Suc (cur (closures s ! h)) < length xs"
  shows "cur (closures (snd (next_call h a s)) ! h) = Suc (cur (closures s ! h)) \<and>
         cur (closures (snd (next_call h a s)) ! length (closures s)) = Suc (cur (closures s ! h)) \<and>
         fst (next_call h a s) =
           Called (StepCall f (Suc (cur (closures s ! h)))
                    (xs ! Suc (cur (closures s ! h))) (length (closures s))) \<and>
         items (snd (next_call h b (snd (next_call h a s)))) =
           Some (updated (updated xs (cur (closures s ! h)) (param a 0))
                   (Suc (cur (closures s ! h))) (param b 0)) \<and>
         fst (next_call h b (snd (next_call h a s))) =
           fst (next_call (length (closures s)) b (snd (next_call h a s))) \<and>
         items (snd (next_call h b (snd (next_call h a s)))) =
           items (snd (next_call (length (closures s)) b (snd (next_call h a s)))) \<and>
         calls (snd (next_call h b (snd (next_call h a s)))) =
           calls (snd (next_call (length (closures s)) b (snd (next_call h a s))))"
proof -
  let ?i = "cur (closures s ! h)"
  let ?ys = "updated xs ?i (param a 0)"
  let ?s1 = "s\<lparr>closures := (closures s)[h := (closures s ! h)\<lparr>cur := Suc ?i\<rparr>] @
                   [\<lparr>cur = Suc ?i, abort_i = Suc ?i\<rparr>],
               items := Some ?ys,
               calls := calls s @ [StepCall f (Suc ?i) (xs ! Suc ?i) (length (closures s))]\<rparr>"
  have i: "?i < length xs" using assms(5) by simp
  have len: "length ?ys = length xs" using i by (rule length_updated)
  have nth: "?ys ! Suc ?i = xs ! Suc ?i" using i by (simp add: nth_updated_other)
  have first: "next_call h a s =
      (Called (StepCall f (Suc ?i) (xs ! Suc ?i) (length (closures s))), ?s1)"
    using assms len nth
    by (simp add: next_call_def Let_def updateVal_Some internals_iterate_def step_def js_index_def)
  have s1: "\<not> isAborted ?s1" "h < length (closures ?s1)" "length (closures s) < length (closures ?s1)"
    "cur (closures ?s1 ! h) = Suc ?i" "cur (closures ?s1 ! length (closures s)) = Suc ?i"
    "items ?s1 = Some ?ys"
    using assms(1,2) by (simp_all add: nth_append)
  show ?thesis unfolding first fst_conv snd_conv
    using s1 assms(4)
    by (auto simp: next_call_def Let_def updateVal_Some internals_iterate_def step_def finish_def
        split: option.splits)
qed

theorem second_advance_targets_next_index_witness:
  "\<not> isAborted three_item_run \<and> 0 < length (closures three_item_run) \<and>
   items three_item_run = Some [Num 1, Num 2, Num 3] \<and> fn three_item_run = Some 0 \<and>
   Suc (cur (closures three_item_run ! 0)) < length [Num 1, Num 2, Num 3] \<and>
   cur (closures (snd (next_call 0 [] three_item_run)) ! 0) = 1 \<and>
   items (snd (next_call 0 [Num 9] (snd (next_call 0 [] three_item_run)))) =
     Some [Num 1, Num 9, Num 3]"
proof -
  have h1: "\<not> isAborted three_item_run" by code_simp
  have h2: "0 < length (closures three_item_run)" by code_simp
  have h3: "items three_item_run = Some [Num 1, Num 2, Num 3]" by code_simp
  have h4: "fn three_item_run = Some 0" by code_simp
  have c0: "cur (closures three_item_run ! 0) = 0" by code_simp
  have h5: "Suc (cur (closures three_item_run ! 0)) < length [Num 1, Num 2, Num 3]"
    by (simp add: c0)
  show ?thesis
    using second_advance_targets_next_index[OF h1 h2 h3 h4 h5, of "[]" "[Num 9]"]
      h1 h2 h3 h4 h5
    by (simp add: c0 updated_def js_store_def param_def)
qed

subsection \<open>An explicit \<^verbatim>\<open>undefined\<close> argument\<close>

text \<open>
  Claim C10. For every closure, \<^verbatim>\<open>next(undefined)\<close> does exactly what \<^verbatim>\<open>next()\<close> does and
  \<^verbatim>\<open>next.abort(undefined)\<close> exactly what \<^verbatim>\<open>next.abort()\<close> does, and both leave the array
  as it was: \<^verbatim>\<open>undefined\<close> is never stored as a replacement.
\<close>

theorem undefined_argument_is_no_argument:
  "next_call h [Undefined] s = next_call h [] s \<and>
   abort_call h [Undefined] s = abort_call h [] s \<and>
   items (snd (next_call h [Undefined] s)) = items s \<and>
   items (snd (abort_call h [Undefined] s)) = items s"
  by (auto simp: next_call_def abort_call_def Let_def param_def updateVal_def internals_iterate_def step_def finish_def split: option.splits prod.splits outcome.splits)

end
